theory Spec2Isabelle
  imports Complex_Main
begin

section \<open>The frontend game state (game\_with\_auth.js)\<close>

text \<open>
  A board cell holds \<open>null\<close>, \<open>'X'\<close> or \<open>'O'\<close>. A JavaScript array can also have holes
  (an index never written); reading a hole, or reading past the end, gives \<open>undefined\<close>.
  \<open>Hole\<close> stands for both.
\<close>

datatype mark = PlayerX | PlayerO

datatype cell = Hole | Null | Mark mark

type_synonym board = "cell list"

datatype mode = human_vs_ai | human_vs_human | ai_vs_ai

datatype difficulty = Easy | Medium | Hard

record game_state =
  currentUser :: "string option"
  currentMode :: "mode option"
  currentDifficulty :: "difficulty option"
  matchId :: "nat option"
  currentRound :: nat
  player1Score :: nat
  player2Score :: nat
  board :: board
  currentPlayer :: mark
  gameActive :: bool
  isAITurn :: bool

text \<open>\<open>b[i]\<close>: \<open>undefined\<close> out of range.\<close>

definition cell_at :: "board \<Rightarrow> nat \<Rightarrow> cell" where
  "cell_at b i = (if i < length b then b ! i else Hole)"

text \<open>\<open>b[i] = v\<close>: an index past the end extends the array, leaving holes.\<close>

definition cell_put :: "board \<Rightarrow> nat \<Rightarrow> cell \<Rightarrow> board" where
  "cell_put b i v =
     (if i < length b then b[i := v] else b @ replicate (i - length b) Hole @ [v])"

subsection \<open>checkWinner and checkGameEnd\<close>

definition winPatterns :: "(nat \<times> nat \<times> nat) list" where
  "winPatterns =
     [(0, 1, 2), (3, 4, 5), (6, 7, 8),
      (0, 3, 6), (1, 4, 7), (2, 5, 8),
      (0, 4, 8), (2, 4, 6)]"

record winner =
  player :: mark
  line :: "nat \<times> nat \<times> nat"

text \<open>
  The \<open>for (const pattern of winPatterns)\<close> loop. \<open>board[a] && \<dots>\<close> is truthy only for a
  mark: \<open>null\<close> and \<open>undefined\<close> are falsy, \<open>'X'\<close> and \<open>'O'\<close> are non-empty strings.
\<close>

fun checkLines :: "board \<Rightarrow> (nat \<times> nat \<times> nat) list \<Rightarrow> winner option" where
  "checkLines b [] = None"
| "checkLines b ((a, b', c) # ps) =
     (case cell_at b a of
        Mark m \<Rightarrow>
          if cell_at b a = cell_at b b' \<and> cell_at b a = cell_at b c
          then Some \<lparr>player = m, line = (a, b', c)\<rparr>
          else checkLines b ps
      | _ \<Rightarrow> checkLines b ps)"

definition checkWinner :: "game_state \<Rightarrow> winner option" where
  "checkWinner g = checkLines (board g) winPatterns"

datatype result = Win mark | Draw

text \<open>
  \<open>Array.prototype.every\<close> skips holes, so only a stored \<open>null\<close> makes the test fail.
  \<open>highlightWinningCells\<close> only touches the page.
\<close>

definition checkGameEnd :: "game_state \<Rightarrow> result option" where
  "checkGameEnd g =
     (case checkWinner g of
        Some w \<Rightarrow> Some (Win (player w))
      | None \<Rightarrow> if list_all (\<lambda>c. c \<noteq> Null) (board g) then Some Draw else None)"

subsection \<open>The page: game state, the round modal and the pending asynchronous work\<close>

text \<open>
  Each handler runs to its first \<open>await\<close>; what follows the \<open>await\<close> runs later, when the
  request or timer completes, and other handlers can run in between. A pending task records
  the continuation. \<open>caller\<close> is who awaits \<open>makeMove\<close>: \<open>handleCellClick\<close>, the
  500 ms callback of \<open>makeAIMove\<close>, or \<open>playAIvsAI\<close> (which goes on after the \<open>await\<close>).
\<close>

datatype caller = FromClick | FromAITimer | FromLoop

datatype task =
    SaveRound result caller   \<comment> \<open>\<open>handleRoundEnd\<close> awaiting \<open>saveRound\<close>\<close>
  | ResultTimer result        \<comment> \<open>\<open>setTimeout(showRoundResultModal(result), 1500)\<close>\<close>
  | AIRequest caller          \<comment> \<open>\<open>makeAIMove\<close> awaiting the reply of \<open>/ai/move\<close>\<close>
  | AITimer nat               \<comment> \<open>\<open>setTimeout(\<dots> makeMove(data.move, 'O'), 500)\<close>\<close>
  | LoopTimer                 \<comment> \<open>\<open>setTimeout(playAIvsAI, \<dots>)\<close>\<close>
  | LoopRequest               \<comment> \<open>\<open>playAIvsAI\<close> awaiting the reply of \<open>/ai/move\<close>\<close>

record page =
  GAME_STATE :: game_state
  roundModal :: bool          \<comment> \<open>class \<open>active\<close> on \<open>modal-round-result\<close>\<close>
  pending :: "task list"

definition addTask :: "task \<Rightarrow> page \<Rightarrow> page" where
  "addTask t s = s\<lparr>pending := pending s @ [t]\<rparr>"

text \<open>
  Modelled from the spec: the page's HTML is not under src/. The board has the 9 cells
  0..8, so \<open>document.querySelector('.cell[data-index=i]')\<close> finds an element exactly for
  these; for any other index it is \<open>null\<close> and \<open>cell.textContent = player\<close> throws.
\<close>

definition cellExists :: "nat \<Rightarrow> bool" where
  "cellExists i = (i < 9)"

text \<open>\<open>updateTurnIndicator\<close> and \<open>updateGameDisplay\<close> throw on a \<open>null\<close> they dereference.\<close>

definition updateTurnIndicatorThrows :: "game_state \<Rightarrow> bool" where
  "updateTurnIndicatorThrows g =
     (currentMode g = Some human_vs_ai \<and> currentPlayer g = PlayerX \<and> currentUser g = None)"

definition updateGameDisplayThrows :: "game_state \<Rightarrow> bool" where
  "updateGameDisplayThrows g =
     (currentMode g = None \<or> (currentMode g = Some human_vs_ai \<and> currentUser g = None))"

text \<open>What \<open>playAIvsAI\<close> does once its \<open>await makeMove(\<dots>)\<close> returns.\<close>

definition resume :: "caller \<Rightarrow> page \<Rightarrow> page" where
  "resume c s =
     (case c of
        FromLoop \<Rightarrow> if gameActive (GAME_STATE s) then addTask LoopTimer s else s
      | _ \<Rightarrow> s)"

definition handleRoundEnd :: "result \<Rightarrow> caller \<Rightarrow> page \<Rightarrow> page" where
  "handleRoundEnd r c s =
     (let g = (GAME_STATE s)\<lparr>gameActive := False\<rparr>;
          g' = (case r of
                  Win w \<Rightarrow>
                    if w = PlayerX then g\<lparr>player1Score := player1Score g + 1\<rparr>
                    else g\<lparr>player2Score := player2Score g + 1\<rparr>
                | Draw \<Rightarrow> g)
      in addTask (SaveRound r c) (s\<lparr>GAME_STATE := g'\<rparr>))"

definition makeMove :: "nat \<Rightarrow> mark \<Rightarrow> caller \<Rightarrow> page \<Rightarrow> page" where
  "makeMove index p c s =
     (let g1 = (GAME_STATE s)\<lparr>board := cell_put (board (GAME_STATE s)) index (Mark p)\<rparr>;
          s1 = s\<lparr>GAME_STATE := g1\<rparr>
      in if \<not> cellExists index then s1
         else
           (case checkGameEnd g1 of
              Some r \<Rightarrow> handleRoundEnd r c s1
            | None \<Rightarrow>
                (let g2 = g1\<lparr>currentPlayer := (if p = PlayerX then PlayerO else PlayerX)\<rparr>;
                     s2 = s1\<lparr>GAME_STATE := g2\<rparr>
                 in if updateTurnIndicatorThrows g2 then s2
                    else if currentMode g2 = Some human_vs_ai \<and> currentPlayer g2 = PlayerO
                    then addTask (AIRequest c) (s2\<lparr>GAME_STATE := g2\<lparr>isAITurn := True\<rparr>\<rparr>)
                    else resume c s2)))"

definition handleCellClick :: "nat \<Rightarrow> page \<Rightarrow> page" where
  "handleCellClick index s =
     (if \<not> gameActive (GAME_STATE s) then s
      else if cell_at (board (GAME_STATE s)) index \<noteq> Null then s
      else if isAITurn (GAME_STATE s) then s
      else makeMove index (currentPlayer (GAME_STATE s)) FromClick s)"

text \<open>The initial value of the module-level \<open>GAME_STATE\<close> object, and a page showing it.\<close>

definition GAME_STATE_init :: game_state where
  "GAME_STATE_init =
     \<lparr>currentUser = None, currentMode = None, currentDifficulty = None, matchId = None,
      currentRound = 1, player1Score = 0, player2Score = 0, board = replicate 9 Null,
      currentPlayer = PlayerX, gameActive = False, isAITurn = False\<rparr>"

definition page_init :: page where
  "page_init = \<lparr>GAME_STATE = GAME_STATE_init, roundModal = False, pending = []\<rparr>"

text \<open>\<open>startNewRound\<close>: the board is reset; in AI-vs-AI mode \<open>playAIvsAI\<close> is scheduled.\<close>

definition startNewRound :: "page \<Rightarrow> page" where
  "startNewRound s =
     (let g = (GAME_STATE s)\<lparr>board := replicate 9 Null, currentPlayer := PlayerX,
                gameActive := True, isAITurn := False\<rparr>;
          s1 = s\<lparr>GAME_STATE := g\<rparr>
      in if updateTurnIndicatorThrows g then s1
         else if currentMode g = Some ai_vs_ai then addTask LoopTimer s1
         else s1)"

text \<open>
  \<open>startNewMatch\<close> once \<open>/matches/start\<close> has answered with a match id. Reading
  \<open>GAME_STATE.currentUser.id\<close> of a \<open>null\<close> user throws inside the \<open>try\<close>, and no match
  starts.
\<close>

definition startNewMatch :: "nat \<Rightarrow> page \<Rightarrow> page" where
  "startNewMatch mid s =
     (if currentUser (GAME_STATE s) = None then s
      else
        (let g = (GAME_STATE s)\<lparr>matchId := Some mid, currentRound := 1,
                   player1Score := 0, player2Score := 0\<rparr>;
             s1 = s\<lparr>GAME_STATE := g\<rparr>
         in if updateGameDisplayThrows g then s1 else startNewRound s1))"

definition startNextRound :: "page \<Rightarrow> page" where
  "startNextRound s =
     (let g = (GAME_STATE s)\<lparr>currentRound := currentRound (GAME_STATE s) + 1\<rparr>;
          s1 = s\<lparr>roundModal := False, GAME_STATE := g\<rparr>
      in if updateGameDisplayThrows g then s1 else startNewRound s1)"

text \<open>
  \<open>showRoundResultModal\<close>: the match is over at a score of 2 or after round 3 (the match
  result is then shown, which changes nothing of the game state); otherwise the modal with
  the next-round button is shown.
\<close>

definition showRoundResultModal :: "result \<Rightarrow> page \<Rightarrow> page" where
  "showRoundResultModal r s =
     (if player1Score (GAME_STATE s) = 2 \<or> player2Score (GAME_STATE s) = 2
      then s\<lparr>roundModal := False\<rparr>
      else if currentRound (GAME_STATE s) = 3 then s\<lparr>roundModal := False\<rparr>
      else s\<lparr>roundModal := True\<rparr>)"

subsection \<open>Events\<close>

text \<open>
  What happens on the page: a click on cell \<open>i\<close>, a click on the next-round button, or
  the completion of the \<open>k\<close>-th pending task. A completed request carries the server's
  reply: \<open>Some m\<close> is an \<open>ok\<close> response with \<open>data.move = m\<close>, \<open>None\<close> a failed one (the
  reply is ignored by timers and by \<open>saveRound\<close>, which swallows its errors). The
  next-round button sits in the round modal and can be clicked only while it is shown.
\<close>

datatype event = Click nat | NextRoundClick | Complete nat "nat option"

definition complete :: "task \<Rightarrow> nat option \<Rightarrow> page \<Rightarrow> page" where
  "complete t reply s =
     (case t of
        SaveRound r c \<Rightarrow> resume c (addTask (ResultTimer r) s)
      | ResultTimer r \<Rightarrow> showRoundResultModal r s
      | AIRequest c \<Rightarrow>
          resume c
            (case reply of
               Some m \<Rightarrow> addTask (AITimer m) s
             | None \<Rightarrow> s\<lparr>GAME_STATE := (GAME_STATE s)\<lparr>isAITurn := False\<rparr>\<rparr>)
      | AITimer m \<Rightarrow>
          makeMove m PlayerO FromAITimer (s\<lparr>GAME_STATE := (GAME_STATE s)\<lparr>isAITurn := False\<rparr>\<rparr>)
      | LoopTimer \<Rightarrow> if \<not> gameActive (GAME_STATE s) then s else addTask LoopRequest s
      | LoopRequest \<Rightarrow>
          (case reply of
             Some m \<Rightarrow> makeMove m (currentPlayer (GAME_STATE s)) FromLoop s
           | None \<Rightarrow> s))"

definition step :: "event \<Rightarrow> page \<Rightarrow> page" where
  "step e s =
     (case e of
        Click i \<Rightarrow> handleCellClick i s
      | NextRoundClick \<Rightarrow> if roundModal s then startNextRound s else s
      | Complete k reply \<Rightarrow>
          if k < length (pending s)
          then complete (pending s ! k) reply
                 (s\<lparr>pending := take k (pending s) @ drop (Suc k) (pending s)\<rparr>)
          else s)"

fun run :: "event list \<Rightarrow> page \<Rightarrow> page" where
  "run [] s = s"
| "run (e # es) s = run es (step e s)"

subsection \<open>Matches and runs\<close>

text \<open>
  The page of a logged-in user who has chosen a mode (and, against the AI, a difficulty);
  a match starts from it with \<open>startNewMatch\<close>.
\<close>

definition logged_in :: "string \<Rightarrow> mode \<Rightarrow> difficulty option \<Rightarrow> page" where
  "logged_in u m d =
     page_init\<lparr>GAME_STATE := GAME_STATE_init
       \<lparr>currentUser := Some u, currentMode := Some m, currentDifficulty := d\<rparr>\<rparr>"

text \<open>The kinds of pending work, and how many tasks of a kind are pending.\<close>

definition is_result_task :: "task \<Rightarrow> bool" where
  "is_result_task t = (case t of SaveRound r c \<Rightarrow> True | ResultTimer r \<Rightarrow> True | _ \<Rightarrow> False)"

definition is_ai_task :: "task \<Rightarrow> bool" where
  "is_ai_task t = (case t of AIRequest c \<Rightarrow> True | AITimer m \<Rightarrow> True | _ \<Rightarrow> False)"

definition is_loop_task :: "task \<Rightarrow> bool" where
  "is_loop_task t = (case t of LoopTimer \<Rightarrow> True | LoopRequest \<Rightarrow> True | _ \<Rightarrow> False)"

definition tasks :: "(task \<Rightarrow> bool) \<Rightarrow> page \<Rightarrow> nat" where
  "tasks P s = length (filter P (pending s))"

text \<open>
  A calm event: no cell is clicked while a request of \<open>playAIvsAI\<close> is in flight, and the
  1500 ms result timer does not fire before a \<open>playAIvsAI\<close> timer that was set earlier
  (with a delay of at most 1500 ms). A calm run has only calm events.
\<close>

definition calm :: "event \<Rightarrow> page \<Rightarrow> bool" where
  "calm e s =
     (case e of
        Click i \<Rightarrow> tasks (\<lambda>t. t = LoopRequest) s = 0
      | NextRoundClick \<Rightarrow> True
      | Complete k reply \<Rightarrow>
          (if k < length (pending s)
           then (case pending s ! k of
                   ResultTimer r \<Rightarrow> tasks (\<lambda>t. t = LoopTimer) s = 0
                 | _ \<Rightarrow> True)
           else True))"

fun calm_run :: "event list \<Rightarrow> page \<Rightarrow> bool" where
  "calm_run [] s = True"
| "calm_run (e # es) s = (calm e s \<and> calm_run es (step e s))"

text \<open>The round number is within 1..3, and at most 2 while the next-round button shows.\<close>

definition round_ok :: "page \<Rightarrow> bool" where
  "round_ok s =
     (1 \<le> currentRound (GAME_STATE s) \<and> currentRound (GAME_STATE s) \<le> 3
      \<and> (roundModal s \<longrightarrow> currentRound (GAME_STATE s) \<le> 2))"

text \<open>The invariant of calm runs of a match.\<close>

definition match_inv :: "page \<Rightarrow> bool" where
  "match_inv s =
     (let g = GAME_STATE s in
      1 \<le> currentRound g \<and> currentRound g \<le> 3
      \<and> player1Score g \<le> 2 \<and> player2Score g \<le> 2
      \<and> (gameActive g \<longrightarrow>
            player1Score g \<le> 1 \<and> player2Score g \<le> 1 \<and> \<not> roundModal s
            \<and> tasks is_result_task s = 0)
      \<and> (\<not> gameActive g \<longrightarrow> tasks is_ai_task s = 0 \<and> tasks (\<lambda>t. t = LoopRequest) s = 0)
      \<and> (roundModal s \<longrightarrow>
            currentRound g \<le> 2 \<and> player1Score g \<le> 1 \<and> player2Score g \<le> 1
            \<and> tasks is_result_task s = 0 \<and> tasks is_loop_task s = 0)
      \<and> tasks is_result_task s \<le> 1
      \<and> tasks is_ai_task s \<le> 1
      \<and> (0 < tasks is_ai_task s \<longrightarrow>
            isAITurn g \<and> currentMode g = Some human_vs_ai
            \<and> tasks (\<lambda>t. t = AIRequest FromLoop) s = 0)
      \<and> tasks is_loop_task s \<le> 1
      \<and> (0 < tasks is_loop_task s \<longrightarrow> currentMode g = Some ai_vs_ai))"

text \<open>What \<open>makeMove\<close> needs of the state it is called in to re-establish the invariant.\<close>

definition move_pre :: "caller \<Rightarrow> page \<Rightarrow> bool" where
  "move_pre c s =
     (let g = GAME_STATE s in
      1 \<le> currentRound g \<and> currentRound g \<le> 3
      \<and> gameActive g
      \<and> player1Score g \<le> 1 \<and> player2Score g \<le> 1 \<and> \<not> roundModal s
      \<and> tasks is_result_task s = 0
      \<and> tasks is_ai_task s = 0
      \<and> tasks (\<lambda>t. t = LoopRequest) s = 0
      \<and> tasks is_loop_task s \<le> 1
      \<and> (0 < tasks is_loop_task s \<longrightarrow> currentMode g = Some ai_vs_ai)
      \<and> (c = FromLoop \<longrightarrow> tasks is_loop_task s = 0 \<and> currentMode g = Some ai_vs_ai))"

text \<open>
  An AI-vs-AI match of a logged-in user, just started, and a run of it. In AI-vs-AI mode a
  click on an empty cell still places the mark of the player to move. Round 1: the AI
  plays X at 0, the user clicks cell 3 (O), the AI plays X at 1, the user clicks cell 4
  (O), the AI completes the top row at 2; the round is saved and shown and the user clicks
  ``next round''. Round 2 repeats the first four moves; then \<open>playAIvsAI\<close> asks for X's
  move, the user clicks cell 2 while the request is in flight, and the reply (move 2)
  arrives.
\<close>

definition ai_match_start :: page where
  "ai_match_start = startNewMatch 1 (logged_in ''Marcus'' ai_vs_ai None)"

definition ai_move :: "nat \<Rightarrow> event list" where
  "ai_move m = [Complete 0 None, Complete 0 (Some m)]"

definition overlap_run :: "event list" where
  "overlap_run =
     ai_move 0 @ [Click 3] @ ai_move 1 @ [Click 4] @ ai_move 2
     @ [Complete 0 None, Complete 0 None, NextRoundClick]
     @ ai_move 0 @ [Click 3] @ ai_move 1 @ [Click 4]
     @ [Complete 0 None, Click 2, Complete 0 (Some 2)]"

section \<open>Win rate (schemas\_with\_auth.sql)\<close>

text \<open>
  A row of \<open>users\<close>, with the columns the win rate reads. The statistics columns are
  \<open>INTEGER DEFAULT 0\<close> without \<open>NOT NULL\<close>, so a value may be \<open>NULL\<close> (\<open>None\<close>). The table
  maps an id to its row.
\<close>

record user_row =
  total_matches :: "int option"
  matches_won :: "int option"
  matches_lost :: "int option"
  matches_drawn :: "int option"

type_synonym users = "nat \<Rightarrow> user_row option"

datatype sql_error = division_by_zero

text \<open>
  \<open>DECIMAL\<close> values are rationals. Division is strict in \<open>NULL\<close> (a \<open>NULL\<close> operand gives
  \<open>NULL\<close>) and raises \<open>division_by_zero\<close> on a zero divisor. The quotient is taken
  exactly here; PostgreSQL rounds it to at least 16 significant digits.
\<close>

definition numeric_div :: "rat option \<Rightarrow> rat option \<Rightarrow> sql_error + rat option" where
  "numeric_div a b =
     (case (a, b) of
        (Some x, Some y) \<Rightarrow> if y = 0 then Inl division_by_zero else Inr (Some (x / y))
      | _ \<Rightarrow> Inr None)"

text \<open>\<open>ROUND(x, 1)\<close> on \<open>numeric\<close>: one decimal place, ties away from zero.\<close>

definition round1 :: "rat \<Rightarrow> rat" where
  "round1 x =
     (if 0 \<le> x then of_int \<lfloor>x * 10 + 1 / 2\<rfloor> / 10 else - (of_int \<lfloor>- x * 10 + 1 / 2\<rfloor> / 10))"

text \<open>\<open>ROUND((won::DECIMAL / total::DECIMAL) * 100, 1)\<close>\<close>

definition win_rate_expr :: "int option \<Rightarrow> int option \<Rightarrow> sql_error + rat option" where
  "win_rate_expr won tot =
     (case numeric_div (map_option of_int won) (map_option of_int tot) of
        Inl e \<Rightarrow> Inl e
      | Inr q \<Rightarrow> Inr (map_option (\<lambda>v. round1 (v * 100)) q))"

text \<open>
  \<open>calculate_win_rate(user_uuid)\<close>. \<open>SELECT \<dots> INTO total, won\<close> leaves both \<open>NULL\<close> when
  no row matches (\<open>tot\<close> is the variable \<open>total\<close>); \<open>IF total = 0\<close> is taken only when the comparison is true, which it is
  not for \<open>NULL\<close>.
\<close>

definition calculate_win_rate :: "users \<Rightarrow> nat \<Rightarrow> sql_error + rat option" where
  "calculate_win_rate us user_uuid =
     (let (tot, won) =
            (case us user_uuid of
               None \<Rightarrow> (None, None)
             | Some u \<Rightarrow> (total_matches u, matches_won u))
      in if tot = Some 0 then Inr (Some 0) else win_rate_expr won tot)"

text \<open>The column \<open>win_rate_percentage\<close> of the view \<open>user_statistics\<close>, for a row \<open>u\<close>.\<close>

definition win_rate_percentage :: "user_row \<Rightarrow> sql_error + rat option" where
  "win_rate_percentage u =
     (if total_matches u = Some 0 then Inr (Some 0)
      else win_rate_expr (matches_won u) (total_matches u))"

section \<open>The move engine\<close>

text \<open>
  Modelled from the spec: the move engine (the service behind \<open>/api/ai/move\<close> that
  \<open>makeAIMove\<close> and \<open>playAIvsAI\<close> call) is not under src/. Everything in this section
  follows section 4.1 of the specification. An engine board is the request's \<open>board\<close>: 9
  cells, each Empty (\<open>None\<close>), X or O.
\<close>

type_synonym engine_board = "mark option list"

text \<open>Modelled from the spec: the error taxonomy of section 7.\<close>

datatype engine_error = InvalidBoard | InvalidPlayer | NoLegalMoves

text \<open>Modelled from the spec: the \<open>MoveDecision\<close> of section 3.\<close>

record MoveDecision =
  move :: nat
  score :: int
  nodes_evaluated :: nat
  branches_pruned :: nat
  explanation :: string

text \<open>Modelled from the spec: the other player mark.\<close>

definition opponent :: "mark \<Rightarrow> mark" where
  "opponent m = (case m of PlayerX \<Rightarrow> PlayerO | PlayerO \<Rightarrow> PlayerX)"

text \<open>Modelled from the spec: the fixed index-to-geometry mapping, rows, columns, diagonals.\<close>

definition engine_lines :: "(nat \<times> nat \<times> nat) list" where
  "engine_lines =
     [(0, 1, 2), (3, 4, 5), (6, 7, 8), (0, 3, 6), (1, 4, 7), (2, 5, 8), (0, 4, 8), (2, 4, 6)]"

text \<open>
  Modelled from the spec: terminal detection. A line with three identical non-empty marks
  is a win for that mark; no Empty cell left is a draw.
\<close>

definition wins :: "engine_board \<Rightarrow> mark \<Rightarrow> bool" where
  "wins B m =
     list_ex (\<lambda>(a, b, c). B ! a = Some m \<and> B ! b = Some m \<and> B ! c = Some m) engine_lines"

text \<open>Modelled from the spec: no Empty cell remains.\<close>

definition full :: "engine_board \<Rightarrow> bool" where
  "full B = (None \<notin> set B)"

text \<open>Modelled from the spec: a terminal state, a line is complete or no Empty cell remains.\<close>

definition terminal :: "engine_board \<Rightarrow> bool" where
  "terminal B = (wins B PlayerX \<or> wins B PlayerO \<or> full B)"

text \<open>
  Modelled from the spec: the scoring convention, from the perspective of the player \<open>me\<close>
  the engine moves for, at \<open>d\<close> plies from the root: \<open>10 - d\<close> for a win, \<open>-10 + d\<close> for a
  loss, 0 for a draw (``the natural scheme''); \<open>None\<close> when the board is not terminal.
\<close>

definition terminal_score :: "engine_board \<Rightarrow> mark \<Rightarrow> nat \<Rightarrow> int option" where
  "terminal_score B me d =
     (if wins B me then Some (10 - int d)
      else if wins B (opponent me) then Some (int d - 10)
      else if full B then Some 0
      else None)"

text \<open>Modelled from the spec: a legal move is an Empty cell of the board.\<close>

definition legal :: "engine_board \<Rightarrow> nat \<Rightarrow> bool" where
  "legal B i = (i < length B \<and> B ! i = None)"

text \<open>Modelled from the spec: the number of Empty cells, the depth left to search.\<close>

definition empties :: "engine_board \<Rightarrow> nat" where
  "empties B = length (filter (\<lambda>c. c = None) B)"

lemma empties_place: "legal B i \<Longrightarrow> empties (B[i := Some m]) < empties B"
proof -
  assume l: "legal B i"
  then have i: "i < length B" and n: "B ! i = None" by (simp_all add: legal_def)
  have B: "B = take i B @ None # drop (Suc i) B"
    using i n by (metis id_take_nth_drop)
  have "B[i := Some m] = take i B @ Some m # drop (Suc i) B"
    using i by (simp add: upd_conv_take_nth_drop)
  then have "empties (B[i := Some m]) = empties (take i B) + empties (drop (Suc i) B)"
    by (simp add: empties_def)
  moreover have "empties B = empties (take i B) + 1 + empties (drop (Suc i) B)"
    by (subst B) (simp add: empties_def)
  ultimately show ?thesis by simp
qed

text \<open>
  Modelled from the spec: the Hard search, alternating maximize (\<open>mx\<close>, the engine's own
  turns) and minimize, with alpha-beta pruning. \<open>minimax\<close> visits a node: it counts it
  (\<open>n\<close>, nodes evaluated), checks for a terminal state before going deeper, and otherwise
  searches the children. \<open>children\<close> tries the cells in index order; when the bounds meet
  (\<open>\<beta> \<le> \<alpha>\<close>) the remaining legal moves are skipped and counted once each in \<open>p\<close>
  (branches pruned). Both counters are threaded through and returned with the score.
\<close>

function minimax :: "engine_board \<Rightarrow> mark \<Rightarrow> nat \<Rightarrow> bool \<Rightarrow> int \<Rightarrow> int \<Rightarrow> nat \<Rightarrow> nat
      \<Rightarrow> int \<times> nat \<times> nat"
  and children :: "engine_board \<Rightarrow> mark \<Rightarrow> nat \<Rightarrow> bool \<Rightarrow> nat list \<Rightarrow> int option \<Rightarrow> int \<Rightarrow> int
      \<Rightarrow> nat \<Rightarrow> nat \<Rightarrow> int \<times> nat \<times> nat"
where
  "minimax B me d mx \<alpha> \<beta> n p =
     (case terminal_score B me d of
        Some s \<Rightarrow> (s, n + 1, p)
      | None \<Rightarrow> children B me d mx [0..<9] None \<alpha> \<beta> (n + 1) p)"
| "children B me d mx [] best \<alpha> \<beta> n p = ((case best of Some s \<Rightarrow> s | None \<Rightarrow> 0), n, p)"
| "children B me d mx (i # is) best \<alpha> \<beta> n p =
     (if legal B i then
        (case minimax (B[i := Some (if mx then me else opponent me)]) me (d + 1) (\<not> mx) \<alpha> \<beta> n p of
           (s, n', p') \<Rightarrow>
             (let best' = (case best of None \<Rightarrow> s | Some b \<Rightarrow> if mx then max b s else min b s);
                  \<alpha>' = (if mx then max \<alpha> best' else \<alpha>);
                  \<beta>' = (if mx then \<beta> else min \<beta> best')
              in if \<beta>' \<le> \<alpha>' then (best', n', p' + length (filter (legal B) is))
                 else children B me d mx is (Some best') \<alpha>' \<beta>' n' p'))
      else children B me d mx is best \<alpha> \<beta> n p)"
  by pat_completeness auto
termination
  by (relation "inv_image (less_than <*lex*> less_than <*lex*> less_than)
        (\<lambda>x. case x of
           Inl (B, me, d, mx, \<alpha>, \<beta>, n, p) \<Rightarrow> (empties B, 1, 0)
         | Inr (B, me, d, mx, is, best, \<alpha>, \<beta>, n, p) \<Rightarrow> (empties B, 0, length is))")
     (auto simp: empties_place)

declare minimax.simps [simp del]

text \<open>Modelled from the spec: the initial lower bound, below every score.\<close>

definition neg_inf :: int where
  "neg_inf = - 1000"

text \<open>Modelled from the spec: the initial upper bound, above every score.\<close>

definition pos_inf :: int where
  "pos_inf = 1000"

text \<open>
  Modelled from the spec: the root of the Hard search. Each Empty cell is tried in index
  order with the engine's mark and scored by \<open>minimax\<close> (the opponent moves next, one ply
  from the root); a move replaces the best one only when its score is strictly greater, so
  among equally scored moves the lowest index stays.
\<close>

fun root_search :: "engine_board \<Rightarrow> mark \<Rightarrow> nat list \<Rightarrow> (nat \<times> int) option \<Rightarrow> int \<Rightarrow> nat \<Rightarrow> nat
    \<Rightarrow> (nat \<times> int) option \<times> nat \<times> nat" where
  "root_search B me [] best \<alpha> n p = (best, n, p)"
| "root_search B me (i # is) best \<alpha> n p =
     (if legal B i then
        (case minimax (B[i := Some me]) me 1 False \<alpha> pos_inf n p of
           (s, n', p') \<Rightarrow>
             (case best of
                None \<Rightarrow> root_search B me is (Some (i, s)) (max \<alpha> s) n' p'
              | Some (j, b) \<Rightarrow>
                  if s > b then root_search B me is (Some (i, s)) (max \<alpha> s) n' p'
                  else root_search B me is best \<alpha> n' p'))
      else root_search B me is best \<alpha> n p)"

text \<open>Modelled from the spec: the explanation, one of the reasoning categories it names.\<close>

definition explain :: "engine_board \<Rightarrow> mark \<Rightarrow> nat \<Rightarrow> string" where
  "explain B me i =
     (if wins (B[i := Some me]) me then ''completes a winning line''
      else if wins (B[i := Some (opponent me)]) (opponent me)
      then ''blocks a winning line of the opponent''
      else if i = 4 then ''takes center for positional advantage''
      else ''best move found by exhaustive search'')"

text \<open>Modelled from the spec: the Hard decision; the root counts as the first node.\<close>

definition hard_decision :: "engine_board \<Rightarrow> mark \<Rightarrow> MoveDecision option" where
  "hard_decision B me =
     (case root_search B me [0..<9] None neg_inf 1 0 of
        (Some (i, s), n, p) \<Rightarrow>
          Some \<lparr>move = i, score = s, nodes_evaluated = n, branches_pruned = p,
                explanation = explain B me i\<rparr>
      | (None, n, p) \<Rightarrow> None)"

text \<open>
  Modelled from the spec: the randomness of the Easy and Medium tiers comes from an injected
  generator. \<open>draws\<close> is what one call draws from it: whether Medium discards the optimal
  choice, and the number that picks the random legal move.
\<close>

record draws =
  discard :: bool
  pick :: nat

text \<open>Modelled from the spec: a random legal move (Easy; Medium when it discards).\<close>

definition random_decision :: "engine_board \<Rightarrow> draws \<Rightarrow> MoveDecision option" where
  "random_decision B rnd =
     (let cands = filter (legal B) [0..<9]
      in if cands = [] then None
         else Some \<lparr>move = cands ! (pick rnd mod length cands), score = 0, nodes_evaluated = 0,
                    branches_pruned = 0, explanation = ''random exploratory move''\<rparr>)"

text \<open>
  Modelled from the spec: \<open>computeMove(board, player, difficulty)\<close> with its failure
  conditions: \<open>InvalidBoard\<close> for a wrong cell count, \<open>NoLegalMoves\<close> for a board with no
  Empty cell. (The types leave no invalid mark and no invalid player.)
\<close>

definition computeMove ::
  "engine_board \<Rightarrow> mark \<Rightarrow> difficulty \<Rightarrow> draws \<Rightarrow> engine_error + MoveDecision" where
  "computeMove B me diff rnd =
     (if length B \<noteq> 9 then Inl InvalidBoard
      else if full B then Inl NoLegalMoves
      else
        (case (case diff of
                 Hard \<Rightarrow> hard_decision B me
               | Medium \<Rightarrow> if discard rnd then random_decision B rnd else hard_decision B me
               | Easy \<Rightarrow> random_decision B rnd) of
           Some d \<Rightarrow> Inr d
         | None \<Rightarrow> Inl NoLegalMoves))"

text \<open>Modelled from the spec: cell \<open>i\<close> is an immediate win-in-one for \<open>me\<close>.\<close>

definition win_in_one :: "engine_board \<Rightarrow> mark \<Rightarrow> nat \<Rightarrow> bool" where
  "win_in_one B me i = (legal B i \<and> wins (B[i := Some me]) me)"

section \<open>Winning lines\<close>

text \<open>The 8 lines as the specification lists them, and a line holding three marks \<open>m\<close>.\<close>

definition spec_lines :: "(nat \<times> nat \<times> nat) set" where
  "spec_lines =
     {(0, 1, 2), (3, 4, 5), (6, 7, 8), (0, 3, 6), (1, 4, 7), (2, 5, 8), (0, 4, 8), (2, 4, 6)}"

definition three :: "board \<Rightarrow> nat \<times> nat \<times> nat \<Rightarrow> mark \<Rightarrow> bool" where
  "three b l m =
     (case l of (a, b', c) \<Rightarrow> b ! a = Mark m \<and> b ! b' = Mark m \<and> b ! c = Mark m)"

definition three_at :: "board \<Rightarrow> nat \<times> nat \<times> nat \<Rightarrow> mark \<Rightarrow> bool" where
  "three_at b l m =
     (case l of (a, b', c) \<Rightarrow>
        cell_at b a = Mark m \<and> cell_at b b' = Mark m \<and> cell_at b c = Mark m)"

section \<open>Properties of the frontend\<close>

lemma checkLines_None:
  "checkLines b ps = None \<longleftrightarrow> (\<forall>l \<in> set ps. \<forall>m. \<not> three_at b l m)"
proof (induction ps)
  case Nil
  show ?case by simp
next
  case (Cons l ps)
  obtain a b' c where l: "l = (a, b', c)" by (cases l) auto
  show ?case
    using Cons.IH by (cases "cell_at b a") (auto simp: l three_at_def)
qed

lemma checkLines_Some:
  "checkLines b ps = Some w \<Longrightarrow> line w \<in> set ps \<and> three_at b (line w) (player w)"
proof (induction ps)
  case Nil
  then show ?case by simp
next
  case (Cons l ps)
  obtain a b' c where l: "l = (a, b', c)" by (cases l) auto
  show ?case
    using Cons by (cases "cell_at b a") (auto simp: l three_at_def split: if_splits)
qed

lemma set_winPatterns: "set winPatterns = spec_lines"
  by (simp add: winPatterns_def spec_lines_def)

lemma three_at_three:
  "length b = 9 \<Longrightarrow> l \<in> spec_lines \<Longrightarrow> three_at b l m = three b l m"
  by (auto simp: spec_lines_def three_at_def three_def cell_at_def)

lemma checkWinner_cases:
  assumes "length (board g) = 9"
  shows "(case checkWinner g of
            None \<Rightarrow> \<not> (\<exists>l \<in> spec_lines. \<exists>m. three (board g) l m)
          | Some w \<Rightarrow> line w \<in> spec_lines \<and> three (board g) (line w) (player w))"
proof (cases "checkWinner g")
  case None
  then have "\<forall>l \<in> spec_lines. \<forall>m. \<not> three_at (board g) l m"
    by (simp add: checkWinner_def checkLines_None set_winPatterns)
  then have "\<forall>l \<in> spec_lines. \<forall>m. \<not> three (board g) l m"
    using assms by (simp add: three_at_three)
  with None show ?thesis by simp
next
  case (Some w)
  then have "line w \<in> spec_lines \<and> three_at (board g) (line w) (player w)"
    using checkLines_Some [of "board g" winPatterns w]
    by (simp add: checkWinner_def set_winPatterns)
  then have "line w \<in> spec_lines \<and> three (board g) (line w) (player w)"
    using assms by (auto simp: three_at_three)
  with Some show ?thesis by simp
qed

text \<open>
  C1. On a board of 9 cells, \<open>checkWinner\<close> returns a winner exactly when one of the 8
  fixed lines holds three identical marks: the winner it returns names one of the 8 lines
  and the mark that fills it, and it returns \<open>null\<close> only when no line is filled.
\<close>

theorem checkWinner_complete_line:
  assumes "length (board g) = 9"
  shows "(case checkWinner g of
            None \<Rightarrow> \<not> (\<exists>l \<in> spec_lines. \<exists>m. three (board g) l m)
          | Some w \<Rightarrow> line w \<in> spec_lines \<and> three (board g) (line w) (player w))"
  using assms by (rule checkWinner_cases)

theorem checkWinner_complete_line_witness:
  "length (board (GAME_STATE_init\<lparr>board :=
       [Mark PlayerO, Mark PlayerX, Null,
        Mark PlayerO, Mark PlayerX, Null,
        Null, Mark PlayerX, Null]\<rparr>)) = 9
   \<and> (case checkWinner (GAME_STATE_init\<lparr>board :=
       [Mark PlayerO, Mark PlayerX, Null,
        Mark PlayerO, Mark PlayerX, Null,
        Null, Mark PlayerX, Null]\<rparr>) of
        None \<Rightarrow> False
      | Some w \<Rightarrow> w = \<lparr>player = PlayerX, line = (1, 4, 7)\<rparr>
          \<and> line w \<in> spec_lines
          \<and> three [Mark PlayerO, Mark PlayerX, Null,
                    Mark PlayerO, Mark PlayerX, Null,
                    Null, Mark PlayerX, Null] (line w) (player w))"
  using checkWinner_complete_line [of "GAME_STATE_init\<lparr>board :=
       [Mark PlayerO, Mark PlayerX, Null,
        Mark PlayerO, Mark PlayerX, Null,
        Null, Mark PlayerX, Null]\<rparr>"]
  by (simp add: checkWinner_def winPatterns_def cell_at_def)

text \<open>
  C2. On a board of 9 cells, each \<open>null\<close>, \<open>'X'\<close> or \<open>'O'\<close>, \<open>checkGameEnd\<close> reports a
  draw exactly when no line is filled and every cell holds a mark; a filled line is
  reported as a win (of a mark that fills a line) whether or not the board is full; and a
  board with no filled line and an empty cell is not terminal.
\<close>

theorem checkGameEnd_classification:
  assumes "length (board g) = 9" and "Hole \<notin> set (board g)"
  shows "(checkGameEnd g = Some Draw \<longleftrightarrow>
            \<not> (\<exists>l \<in> spec_lines. \<exists>m. three (board g) l m)
            \<and> (\<forall>c \<in> set (board g). \<exists>m. c = Mark m))
       \<and> ((\<exists>l \<in> spec_lines. \<exists>m. three (board g) l m) \<longrightarrow>
            (\<exists>m. checkGameEnd g = Some (Win m) \<and> (\<exists>l \<in> spec_lines. three (board g) l m)))
       \<and> (\<not> (\<exists>l \<in> spec_lines. \<exists>m. three (board g) l m) \<and> Null \<in> set (board g) \<longrightarrow>
            checkGameEnd g = None)"
proof -
  have full: "list_all (\<lambda>c. c \<noteq> Null) (board g) \<longleftrightarrow> (\<forall>c \<in> set (board g). \<exists>m. c = Mark m)"
  proof -
    have "c \<noteq> Null \<longleftrightarrow> (\<exists>m. c = Mark m)" if "c \<in> set (board g)" for c
      by (cases c) (use that assms(2) in auto)
    then show ?thesis by (simp add: list_all_iff)
  qed
  have notfull: "Null \<in> set (board g) \<Longrightarrow> \<not> list_all (\<lambda>c. c \<noteq> Null) (board g)"
    by (auto simp: list_all_iff)
  show ?thesis
  proof (cases "checkWinner g")
    case None
    with checkWinner_cases [OF assms(1)]
    have "\<not> (\<exists>l \<in> spec_lines. \<exists>m. three (board g) l m)" by simp
    with None full notfull show ?thesis by (auto simp: checkGameEnd_def)
  next
    case (Some w)
    with checkWinner_cases [OF assms(1)]
    have w: "line w \<in> spec_lines" "three (board g) (line w) (player w)" by simp_all
    then have ex: "\<exists>l \<in> spec_lines. \<exists>m. three (board g) l m" by blast
    have "checkGameEnd g = Some (Win (player w))"
      using Some by (simp add: checkGameEnd_def)
    with w ex show ?thesis by auto
  qed
qed

theorem checkGameEnd_classification_witness:
  "checkGameEnd (GAME_STATE_init\<lparr>board :=
       [Mark PlayerX, Mark PlayerO, Mark PlayerX,
        Mark PlayerX, Mark PlayerO, Mark PlayerO,
        Mark PlayerO, Mark PlayerX, Mark PlayerX]\<rparr>) = Some Draw
   \<and> \<not> (\<exists>l \<in> spec_lines. \<exists>m. three
       [Mark PlayerX, Mark PlayerO, Mark PlayerX,
        Mark PlayerX, Mark PlayerO, Mark PlayerO,
        Mark PlayerO, Mark PlayerX, Mark PlayerX] l m)"
  using checkGameEnd_classification [of "GAME_STATE_init\<lparr>board :=
       [Mark PlayerX, Mark PlayerO, Mark PlayerX,
        Mark PlayerX, Mark PlayerO, Mark PlayerO,
        Mark PlayerO, Mark PlayerX, Mark PlayerX]\<rparr>"]
  by (simp add: checkGameEnd_def checkWinner_def winPatterns_def cell_at_def)

text \<open>
  C8. A click on a cell is rejected when the game is not active, when \<open>board[index]\<close> is
  not \<open>null\<close>, or when it is the AI's turn: \<open>handleCellClick\<close> returns and nothing has
  changed, neither the game state nor the page's modal and pending work.
\<close>

theorem handleCellClick_rejected:
  "\<not> gameActive (GAME_STATE s) \<or> cell_at (board (GAME_STATE s)) i \<noteq> Null
     \<or> isAITurn (GAME_STATE s) \<Longrightarrow> handleCellClick i s = s"
  by (auto simp: handleCellClick_def)

theorem handleCellClick_rejected_witness:
  "handleCellClick 4 page_init = page_init
   \<and> \<not> gameActive (GAME_STATE page_init)
   \<and> handleCellClick 0 (page_init\<lparr>GAME_STATE := GAME_STATE_init
        \<lparr>gameActive := True, board := (replicate 9 Null)[0 := Mark PlayerX]\<rparr>\<rparr>)
      = page_init\<lparr>GAME_STATE := GAME_STATE_init
        \<lparr>gameActive := True, board := (replicate 9 Null)[0 := Mark PlayerX]\<rparr>\<rparr>
   \<and> handleCellClick 4 (page_init\<lparr>GAME_STATE := GAME_STATE_init
        \<lparr>gameActive := True, isAITurn := True\<rparr>\<rparr>)
      = page_init\<lparr>GAME_STATE := GAME_STATE_init\<lparr>gameActive := True, isAITurn := True\<rparr>\<rparr>"
  using handleCellClick_rejected [of page_init 4]
    handleCellClick_rejected [of "page_init\<lparr>GAME_STATE := GAME_STATE_init
        \<lparr>gameActive := True, board := (replicate 9 Null)[0 := Mark PlayerX]\<rparr>\<rparr>" 0]
    handleCellClick_rejected [of "page_init\<lparr>GAME_STATE := GAME_STATE_init
        \<lparr>gameActive := True, isAITurn := True\<rparr>\<rparr>" 4]
  by (simp add: page_init_def GAME_STATE_init_def cell_at_def)

section \<open>Rounds and scores of a match\<close>

text \<open>The round number stays within 1..3 in every run, calm or not.\<close>

lemma makeMove_round:
  "currentRound (GAME_STATE (makeMove i p c s)) = currentRound (GAME_STATE s)
   \<and> roundModal (makeMove i p c s) = roundModal s"
  by (simp add: makeMove_def handleRoundEnd_def resume_def addTask_def Let_def
      split: option.splits result.splits caller.splits)

lemma step_round_ok: "round_ok s \<Longrightarrow> round_ok (step e s)"
proof (cases e)
  case (Click i)
  assume "round_ok s"
  then show ?thesis
    using makeMove_round [of i "currentPlayer (GAME_STATE s)" FromClick s]
    by (simp add: Click step_def handleCellClick_def round_ok_def)
next
  case NextRoundClick
  assume "round_ok s"
  then show ?thesis
    by (auto simp: NextRoundClick step_def round_ok_def startNextRound_def startNewRound_def
        addTask_def Let_def)
next
  case (Complete k reply)
  assume r: "round_ok s"
  show ?thesis
  proof (cases "k < length (pending s)")
    case False
    with r show ?thesis by (simp add: Complete step_def)
  next
    case True
    let ?s = "s\<lparr>pending := take k (pending s) @ drop (Suc k) (pending s)\<rparr>"
    from r have r': "round_ok ?s" by (simp add: round_ok_def)
    have "round_ok (complete t reply ?s)" for t
    proof (cases t)
      case (AITimer m)
      with r' makeMove_round [of m PlayerO FromAITimer "?s\<lparr>GAME_STATE := (GAME_STATE ?s)\<lparr>isAITurn := False\<rparr>\<rparr>"]
      show ?thesis by (simp add: complete_def round_ok_def)
    next
      case LoopRequest
      with r' show ?thesis
        using makeMove_round [of _ "currentPlayer (GAME_STATE ?s)" FromLoop ?s]
        by (cases reply) (simp_all add: complete_def round_ok_def)
    qed (use r' in \<open>auto simp: complete_def round_ok_def resume_def addTask_def
          showRoundResultModal_def split: caller.splits option.splits\<close>)
    with True show ?thesis by (simp add: Complete step_def)
  qed
qed

lemma run_round_ok: "round_ok s \<Longrightarrow> round_ok (run es s)"
  by (induction es arbitrary: s) (simp_all add: step_round_ok)

lemma startNewMatch_round_ok: "round_ok s \<Longrightarrow> round_ok (startNewMatch mid s)"
  by (auto simp: round_ok_def startNewMatch_def startNewRound_def addTask_def Let_def)

text \<open>
  In calm runs of a match the scores stay at most 2 and the round number within 1..3.
\<close>

lemma tasks_simps [simp]:
  "tasks P (addTask t s) = tasks P s + (if P t then 1 else 0)"
  "tasks P (s\<lparr>GAME_STATE := g\<rparr>) = tasks P s"
  "tasks P (s\<lparr>roundModal := b\<rparr>) = tasks P s"
  by (simp_all add: tasks_def addTask_def)

lemma page_simps [simp]:
  "GAME_STATE (addTask t s) = GAME_STATE s"
  "roundModal (addTask t s) = roundModal s"
  by (simp_all add: addTask_def)

lemma filter_remove_nth:
  assumes "k < length xs"
  shows "length (filter P (take k xs @ drop (Suc k) xs)) =
     length (filter P xs) - (if P (xs ! k) then 1 else 0)"
proof -
  have "filter P xs = filter P (take k xs @ xs ! k # drop (Suc k) xs)"
    using assms by (simp add: id_take_nth_drop [symmetric])
  then have "length (filter P xs) =
      length (filter P (take k xs)) + (if P (xs ! k) then 1 else 0)
      + length (filter P (drop (Suc k) xs))"
    by simp
  then show ?thesis by simp
qed

lemma tasks_remove:
  "k < length (pending s) \<Longrightarrow>
   tasks P (s\<lparr>pending := take k (pending s) @ drop (Suc k) (pending s)\<rparr>) =
     tasks P s - (if P (pending s ! k) then 1 else 0)"
  using filter_remove_nth [of k "pending s" P] by (simp add: tasks_def)

lemma tasks_pos_nth:
  "k < length (pending s) \<Longrightarrow> P (pending s ! k) \<Longrightarrow> 0 < tasks P s"
  by (auto simp: tasks_def filter_empty_conv)

lemma tasks_zero_mono:
  "tasks P s = 0 \<Longrightarrow> (\<And>t. Q t \<Longrightarrow> P t) \<Longrightarrow> tasks Q s = 0"
  by (auto simp: tasks_def filter_empty_conv)

lemma no_ai_request: "tasks is_ai_task s = 0 \<Longrightarrow> tasks (\<lambda>t. t = AIRequest c) s = 0"
  by (erule tasks_zero_mono) (simp add: is_ai_task_def)

lemma no_loop_request: "tasks is_loop_task s = 0 \<Longrightarrow> tasks (\<lambda>t. t = LoopRequest) s = 0"
  by (erule tasks_zero_mono) (simp add: is_loop_task_def)

lemma makeMove_inv:
  assumes "move_pre c s"
  shows "match_inv (makeMove i p c s)"
proof -
  let ?g1 = "(GAME_STATE s)\<lparr>board := cell_put (board (GAME_STATE s)) i (Mark p)\<rparr>"
  show ?thesis
  proof (cases "cellExists i")
    case False
    with assms show ?thesis
      by (simp add: makeMove_def Let_def move_pre_def match_inv_def)
  next
    case True
    show ?thesis
    proof (cases "checkGameEnd ?g1")
      case (Some r)
      with True assms show ?thesis
        by (cases r)
          (simp_all add: makeMove_def Let_def move_pre_def match_inv_def handleRoundEnd_def
            is_result_task_def is_ai_task_def is_loop_task_def)
    next
      case None
      with True assms show ?thesis
        by (cases c)
          (auto simp: makeMove_def Let_def move_pre_def match_inv_def resume_def
            is_result_task_def is_ai_task_def is_loop_task_def updateTurnIndicatorThrows_def
            no_ai_request)
    qed
  qed
qed

lemma loop_request_le: "tasks (\<lambda>t. t = LoopRequest) s \<le> tasks is_loop_task s"
proof -
  have "length (filter (\<lambda>t. t = LoopRequest) xs) \<le> length (filter is_loop_task xs)" for xs
    by (induction xs) (auto simp: is_loop_task_def)
  then show ?thesis by (simp add: tasks_def)
qed

lemma no_loop_tasks:
  "tasks (\<lambda>t. t = LoopTimer) s = 0 \<Longrightarrow> tasks (\<lambda>t. t = LoopRequest) s = 0
     \<Longrightarrow> tasks is_loop_task s = 0"
  by (auto simp: tasks_def filter_empty_conv is_loop_task_def split: task.splits)

lemma click_inv:
  assumes "match_inv s" and "calm (Click i) s"
  shows "match_inv (handleCellClick i s)"
proof (cases "gameActive (GAME_STATE s) \<and> cell_at (board (GAME_STATE s)) i = Null
    \<and> \<not> isAITurn (GAME_STATE s)")
  case False
  with assms(1) show ?thesis by (auto simp: handleCellClick_def)
next
  case True
  with assms have "move_pre FromClick s"
    by (auto simp: move_pre_def match_inv_def calm_def Let_def)
  then have "match_inv (makeMove i (currentPlayer (GAME_STATE s)) FromClick s)"
    by (rule makeMove_inv)
  with True show ?thesis by (simp add: handleCellClick_def)
qed

lemma next_inv:
  assumes "match_inv s" and "roundModal s"
  shows "match_inv (startNextRound s)"
  using assms
  by (auto simp: match_inv_def startNextRound_def startNewRound_def Let_def is_loop_task_def
      is_result_task_def is_ai_task_def no_loop_request)

lemma complete_inv:
  assumes inv: "match_inv s" and k: "k < length (pending s)" and calm: "calm (Complete k reply) s"
  shows "match_inv (complete (pending s ! k) reply
           (s\<lparr>pending := take k (pending s) @ drop (Suc k) (pending s)\<rparr>))"
proof -
  let ?s = "s\<lparr>pending := take k (pending s) @ drop (Suc k) (pending s)\<rparr>"
  note rm = tasks_remove [OF k]
  have g [simp]: "GAME_STATE ?s = GAME_STATE s" "roundModal ?s = roundModal s" by simp_all
  show ?thesis
  proof (cases "pending s ! k")
    case (SaveRound r c)
    then have "0 < tasks is_result_task s"
      using tasks_pos_nth [OF k, of is_result_task] by (simp add: is_result_task_def)
    with inv SaveRound show ?thesis
      by (cases c)
        (auto simp: complete_def resume_def match_inv_def Let_def rm is_result_task_def
          is_ai_task_def is_loop_task_def)
  next
    case (ResultTimer r)
    then have pos: "0 < tasks is_result_task s"
      using tasks_pos_nth [OF k, of is_result_task] by (simp add: is_result_task_def)
    with inv have na: "\<not> gameActive (GAME_STATE s)" by (auto simp: match_inv_def Let_def)
    with inv have "tasks (\<lambda>t. t = LoopRequest) s = 0" by (auto simp: match_inv_def Let_def)
    moreover from calm k ResultTimer have "tasks (\<lambda>t. t = LoopTimer) s = 0"
      by (simp add: calm_def)
    ultimately have "tasks is_loop_task s = 0" by (simp add: no_loop_tasks)
    with inv pos na ResultTimer show ?thesis
      by (auto simp: complete_def showRoundResultModal_def match_inv_def Let_def rm
          is_result_task_def is_ai_task_def is_loop_task_def)
  next
    case (AIRequest c)
    then have pos: "0 < tasks is_ai_task s"
      using tasks_pos_nth [OF k, of is_ai_task] by (simp add: is_ai_task_def)
    have "c \<noteq> FromLoop"
    proof
      assume "c = FromLoop"
      with AIRequest have "0 < tasks (\<lambda>t. t = AIRequest FromLoop) s"
        using tasks_pos_nth [OF k, of "\<lambda>t. t = AIRequest FromLoop"] by simp
      with inv pos show False by (auto simp: match_inv_def Let_def)
    qed
    with inv pos AIRequest show ?thesis
      by (cases c; cases reply)
        (auto simp: complete_def resume_def match_inv_def Let_def rm is_result_task_def
          is_ai_task_def is_loop_task_def)
  next
    case (AITimer m)
    then have pos: "0 < tasks is_ai_task s"
      using tasks_pos_nth [OF k, of is_ai_task] by (simp add: is_ai_task_def)
    let ?t = "?s\<lparr>GAME_STATE := (GAME_STATE ?s)\<lparr>isAITurn := False\<rparr>\<rparr>"
    from inv pos have "tasks is_loop_task s = 0" by (auto simp: match_inv_def Let_def)
    with inv pos AITimer have "move_pre FromAITimer ?t"
      by (auto simp: move_pre_def match_inv_def Let_def rm is_result_task_def
          is_ai_task_def is_loop_task_def no_loop_request)
    then have "match_inv (makeMove m PlayerO FromAITimer ?t)" by (rule makeMove_inv)
    with AITimer show ?thesis by (simp add: complete_def)
  next
    case LoopTimer
    then have pos: "0 < tasks is_loop_task s"
      using tasks_pos_nth [OF k, of is_loop_task] by (simp add: is_loop_task_def)
    with inv LoopTimer show ?thesis
      by (auto simp: complete_def match_inv_def Let_def rm is_result_task_def
          is_ai_task_def is_loop_task_def)
  next
    case LoopRequest
    then have pos: "0 < tasks is_loop_task s"
      using tasks_pos_nth [OF k, of is_loop_task] by (simp add: is_loop_task_def)
    from LoopRequest have posr: "0 < tasks (\<lambda>t. t = LoopRequest) s"
      using tasks_pos_nth [OF k, of "\<lambda>t. t = LoopRequest"] by simp
    show ?thesis
    proof (cases reply)
      case None
      with inv pos LoopRequest show ?thesis
        by (auto simp: complete_def match_inv_def Let_def rm is_result_task_def
            is_ai_task_def is_loop_task_def)
    next
      case (Some m)
      from inv pos posr LoopRequest loop_request_le [of s] have "move_pre FromLoop ?s"
        by (auto simp: move_pre_def match_inv_def Let_def rm is_result_task_def
            is_ai_task_def is_loop_task_def no_loop_request)
      then have "match_inv (makeMove m (currentPlayer (GAME_STATE ?s)) FromLoop ?s)"
        by (rule makeMove_inv)
      with LoopRequest Some show ?thesis by (simp add: complete_def)
    qed
  qed
qed

lemma step_inv: "match_inv s \<Longrightarrow> calm e s \<Longrightarrow> match_inv (step e s)"
  by (cases e) (auto simp: step_def click_inv next_inv complete_inv)

lemma run_inv: "match_inv s \<Longrightarrow> calm_run es s \<Longrightarrow> match_inv (run es s)"
  by (induction es arbitrary: s) (auto simp: step_inv)

lemma start_inv: "match_inv (startNewMatch mid (logged_in u m d))"
  by (auto simp: match_inv_def startNewMatch_def startNewRound_def logged_in_def page_init_def
      GAME_STATE_init_def Let_def updateGameDisplayThrows_def updateTurnIndicatorThrows_def
      tasks_def addTask_def is_loop_task_def is_result_task_def is_ai_task_def)

lemma calm_match_scores:
  assumes "calm_run es (startNewMatch mid (logged_in u m d))"
  shows "player1Score (GAME_STATE (run es (startNewMatch mid (logged_in u m d)))) \<le> 2
       \<and> player2Score (GAME_STATE (run es (startNewMatch mid (logged_in u m d)))) \<le> 2
       \<and> 1 \<le> currentRound (GAME_STATE (run es (startNewMatch mid (logged_in u m d))))
       \<and> currentRound (GAME_STATE (run es (startNewMatch mid (logged_in u m d)))) \<le> 3"
  using run_inv [OF start_inv assms] by (simp add: match_inv_def Let_def)

lemma overlap_run_not_calm:
  "calm_run (take 18 overlap_run) ai_match_start \<and> \<not> calm_run (take 19 overlap_run) ai_match_start"
  by code_simp

text \<open>
  C9. The best-of-3 bound on the scores is not an invariant of round play. In the run
  \<open>overlap_run\<close> of an AI-vs-AI match, round 2 stands at 1:0 with X to move and the request
  of \<open>playAIvsAI\<close> in flight; cell 2 is empty and the click on it is accepted, X completes
  the top row and player 1 has 2 points; then the reply arrives, \<open>makeMove\<close> runs again on
  the finished round, finds the same line and \<open>handleRoundEnd\<close> adds another point: player
  1 has 3 points in round 2. \<open>showRoundResultModal\<close> tests for a score equal to 2, so the
  next-round button is shown and round 3 is started with that score.
\<close>

theorem overlap_run_score:
  "(let s = run (take 18 overlap_run) ai_match_start
    in gameActive (GAME_STATE s) \<and> \<not> isAITurn (GAME_STATE s)
       \<and> board (GAME_STATE s) =
           [Mark PlayerX, Mark PlayerX, Null, Mark PlayerO, Mark PlayerO, Null, Null, Null, Null]
       \<and> currentPlayer (GAME_STATE s) = PlayerX
       \<and> currentRound (GAME_STATE s) = 2 \<and> player1Score (GAME_STATE s) = 1
       \<and> pending s = [LoopRequest])
   \<and> player1Score (GAME_STATE (run (take 19 overlap_run) ai_match_start)) = 2
   \<and> player1Score (GAME_STATE (run overlap_run ai_match_start)) = 3
   \<and> currentRound (GAME_STATE (run overlap_run ai_match_start)) = 2
   \<and> (let s = run (overlap_run @ [Complete 0 None, Complete 0 None, Complete 0 None,
                Complete 0 None, NextRoundClick]) ai_match_start
      in gameActive (GAME_STATE s) \<and> currentRound (GAME_STATE s) = 3
         \<and> player1Score (GAME_STATE s) = 3)"
  by code_simp

section \<open>Properties of the win rate\<close>

lemma win_rate_expr_no_error:
  "tot \<noteq> Some 0 \<Longrightarrow> \<exists>v. win_rate_expr won tot = Inr v"
  by (cases won; cases tot) (auto simp: win_rate_expr_def numeric_div_def)

lemma win_rate_expr_value:
  "t \<noteq> 0 \<Longrightarrow>
   win_rate_expr (Some w) (Some t) = Inr (Some (round1 (of_int w / of_int t * 100)))"
  by (simp add: win_rate_expr_def numeric_div_def)

text \<open>
  C10. For every user row, \<open>calculate_win_rate\<close> returns 0 when \<open>total_matches\<close> is 0 and
  otherwise the value of \<open>ROUND((won / total) * 100, 1)\<close> (for non-null \<open>won\<close> and
  \<open>total\<close>, the quotient rounded to one decimal); it never raises \<open>division_by_zero\<close>, for
  any id; and the view's \<open>win_rate_percentage\<close> is the same value.
\<close>

theorem calculate_win_rate_safe:
  assumes "us user_uuid = Some u"
  shows "(total_matches u = Some 0 \<longrightarrow> calculate_win_rate us user_uuid = Inr (Some 0))
       \<and> (total_matches u \<noteq> Some 0 \<longrightarrow>
            calculate_win_rate us user_uuid = win_rate_expr (matches_won u) (total_matches u))
       \<and> (\<forall>w t. matches_won u = Some w \<and> total_matches u = Some t \<and> t \<noteq> 0 \<longrightarrow>
            calculate_win_rate us user_uuid = Inr (Some (round1 (of_int w / of_int t * 100))))
       \<and> (\<forall>us' i. calculate_win_rate us' i \<noteq> Inl division_by_zero)
       \<and> win_rate_percentage u = calculate_win_rate us user_uuid"
proof -
  have noerr: "calculate_win_rate us' i \<noteq> Inl division_by_zero" for us' i
  proof (cases "us' i")
    case None
    then show ?thesis
      by (simp add: calculate_win_rate_def win_rate_expr_def numeric_div_def)
  next
    case (Some r)
    show ?thesis
    proof (cases "total_matches r = Some 0")
      case True
      with Some show ?thesis by (simp add: calculate_win_rate_def)
    next
      case False
      from win_rate_expr_no_error [OF False, of "matches_won r"] Some False show ?thesis
        by (auto simp: calculate_win_rate_def)
    qed
  qed
  have val: "calculate_win_rate us user_uuid = Inr (Some (round1 (of_int w / of_int t * 100)))"
    if "matches_won u = Some w" "total_matches u = Some t" "t \<noteq> 0" for w t
    using that assms by (simp add: calculate_win_rate_def win_rate_expr_value)
  show ?thesis
    using assms noerr val by (auto simp: calculate_win_rate_def win_rate_percentage_def)
qed

theorem calculate_win_rate_safe_witness:
  "calculate_win_rate
     (\<lambda>i. if i = 7 then Some \<lparr>total_matches = Some 3, matches_won = Some 2,
                               matches_lost = Some 1, matches_drawn = Some 0\<rparr> else None) 7
     = Inr (Some (667 / 10))
   \<and> calculate_win_rate
     (\<lambda>i. if i = 7 then Some \<lparr>total_matches = Some 0, matches_won = Some 0,
                               matches_lost = Some 0, matches_drawn = Some 0\<rparr> else None) 7
     = Inr (Some 0)"
  using calculate_win_rate_safe
      [of "\<lambda>i. if i = 7 then Some \<lparr>total_matches = Some 3, matches_won = Some 2,
                               matches_lost = Some 1, matches_drawn = Some 0\<rparr> else None" 7
          "\<lparr>total_matches = Some 3, matches_won = Some 2,
            matches_lost = Some 1, matches_drawn = Some 0\<rparr>"]
    calculate_win_rate_safe
      [of "\<lambda>i. if i = 7 then Some \<lparr>total_matches = Some 0, matches_won = Some 0,
                               matches_lost = Some 0, matches_drawn = Some 0\<rparr> else None" 7
          "\<lparr>total_matches = Some 0, matches_won = Some 0,
            matches_lost = Some 0, matches_drawn = Some 0\<rparr>"]
    floor_eq_iff [of "4003 / 6 :: rat" 667]
  by (simp add: round1_def win_rate_expr_def numeric_div_def)

section \<open>Properties of the move engine\<close>

lemma not_full_empties: "\<not> full B \<Longrightarrow> 0 < empties B"
  by (auto simp: full_def empties_def filter_empty_conv)

lemma empties_le: "empties B \<le> length B"
  by (simp add: empties_def)

lemma terminal_score_None: "terminal_score B me d = None \<Longrightarrow> \<not> full B"
  by (auto simp: terminal_score_def split: if_splits)

lemma terminal_score_le:
  "terminal_score B me d = Some s \<Longrightarrow> d \<le> 10 \<Longrightarrow> s \<le> 10 - int d"
  by (auto simp: terminal_score_def split: if_splits)

lemma minimax_le:
  "d + empties B \<le> 10 \<Longrightarrow> fst (minimax B me d mx \<alpha> \<beta> n p) \<le> 10 - int d"
  "d + empties B \<le> 10 \<Longrightarrow> d \<le> 9 \<Longrightarrow> (\<forall>b. best = Some b \<longrightarrow> b \<le> 9 - int d)
     \<Longrightarrow> fst (children B me d mx is best \<alpha> \<beta> n p) \<le> 9 - int d"
proof (induction B me d mx \<alpha> \<beta> n p and B me d mx "is" best \<alpha> \<beta> n p rule: minimax_children.induct)
  case (1 B me d mx \<alpha> \<beta> n p)
  show ?case
  proof (cases "terminal_score B me d")
    case None
    then have "0 < empties B" by (simp add: terminal_score_None not_full_empties)
    with "1.prems" have "d \<le> 9" by simp
    with "1.IH" [OF None] "1.prems" None show ?thesis by (simp add: minimax.simps)
  next
    case (Some s)
    with "1.prems" terminal_score_le [OF Some] show ?thesis by (simp add: minimax.simps)
  qed
next
  case (2 B me d mx best \<alpha> \<beta> n p)
  then show ?case by (auto split: option.splits)
next
  case (3 B me d mx i "is" best \<alpha> \<beta> n p)
  show ?case
  proof (cases "legal B i")
    case False
    with 3 show ?thesis by simp
  next
    case True
    let ?B' = "B[i := Some (if mx then me else opponent me)]"
    obtain s n' p' where m: "minimax ?B' me (d + 1) (\<not> mx) \<alpha> \<beta> n p = (s, n', p')"
      by (cases "minimax ?B' me (d + 1) (\<not> mx) \<alpha> \<beta> n p") auto
    have "(d + 1) + empties ?B' \<le> 10"
      using empties_place [OF True, of "if mx then me else opponent me"] "3.prems"(1) by simp
    from "3.IH"(1) [OF True this, of ] m have s: "s \<le> 9 - int d" by simp
    define best' where "best' = (case best of None \<Rightarrow> s | Some b \<Rightarrow> if mx then max b s else min b s)"
    have b': "best' \<le> 9 - int d"
      using s "3.prems"(3) by (auto simp: best'_def split: option.splits)
    define \<alpha>' where "\<alpha>' = (if mx then max \<alpha> best' else \<alpha>)"
    define \<beta>' where "\<beta>' = (if mx then \<beta> else min \<beta> best')"
    have eq: "children B me d mx (i # is) best \<alpha> \<beta> n p =
        (if \<beta>' \<le> \<alpha>' then (best', n', p' + length (filter (legal B) is))
         else children B me d mx is (Some best') \<alpha>' \<beta>' n' p')"
      using True m by (simp add: Let_def best'_def \<alpha>'_def \<beta>'_def)
    show ?thesis
    proof (cases "\<beta>' \<le> \<alpha>'")
      case True
      with eq b' show ?thesis by simp
    next
      case False
      have "fst (children B me d mx is (Some best') \<alpha>' \<beta>' n' p') \<le> 9 - int d"
        using "3.IH"(2) [OF \<open>legal B i\<close> m [symmetric] refl best'_def \<alpha>'_def \<beta>'_def False
            "3.prems"(1,2)] b'
        by simp
      with False eq show ?thesis by simp
    qed
  qed
qed

lemma winning_child:
  "win_in_one B me i \<Longrightarrow> minimax (B[i := Some me]) me 1 False \<alpha> \<beta> n p = (9, n + 1, p)"
  by (simp add: minimax.simps terminal_score_def win_in_one_def)

lemma other_child:
  assumes "length B = 9" and "legal B i" and "\<not> wins (B[i := Some me]) me"
  shows "fst (minimax (B[i := Some me]) me 1 False \<alpha> \<beta> n p) \<le> 8"
proof (cases "terminal_score (B[i := Some me]) me 1")
  case None
  have "empties (B[i := Some me]) < empties B" using assms(2) by (rule empties_place)
  moreover have "empties B \<le> 9" using empties_le [of B] assms(1) by simp
  ultimately have "1 + empties (B[i := Some me]) \<le> 10" by simp
  then have "fst (children (B[i := Some me]) me 1 False [0..<9] None \<alpha> \<beta> (n + 1) p) \<le> 9 - int 1"
    by (rule minimax_le(2)) simp_all
  with None show ?thesis by (simp add: minimax.simps)
next
  case (Some s)
  then have "s \<le> 0" using assms(3) by (auto simp: terminal_score_def split: if_splits)
  with Some show ?thesis by (simp add: minimax.simps)
qed

lemma root_search_step:
  assumes "legal B i" and "minimax (B[i := Some me]) me 1 False \<alpha> pos_inf n p = (s, n', p')"
  shows "root_search B me (i # is) best \<alpha> n p =
     (if (case best of None \<Rightarrow> True | Some (j, b) \<Rightarrow> s > b)
      then root_search B me is (Some (i, s)) (max \<alpha> s) n' p'
      else root_search B me is best \<alpha> n' p')"
  using assms by (auto split: option.splits)

lemma root_search_skip:
  "\<not> legal B i \<Longrightarrow> root_search B me (i # is) best \<alpha> n p = root_search B me is best \<alpha> n p"
  by simp

lemma root_search_win:
  assumes len: "length B = 9"
  shows "(\<forall>j b. best = Some (j, b) \<longrightarrow> (b = 9 \<and> win_in_one B me j) \<or> b \<le> 8)
     \<Longrightarrow> (\<exists>i \<in> set is. win_in_one B me i) \<or> (\<exists>j. best = Some (j, 9))
     \<Longrightarrow> \<exists>i n' p'. root_search B me is best \<alpha> n p = (Some (i, 9), n', p') \<and> win_in_one B me i"
proof (induction "is" arbitrary: best \<alpha> n p)
  case Nil
  then show ?case by auto
next
  case (Cons i "is")
  note inv = Cons.prems(1) and ex = Cons.prems(2)
  show ?case
  proof (cases "legal B i")
    case False
    then have "\<not> win_in_one B me i" by (simp add: win_in_one_def)
    with ex have "(\<exists>i \<in> set is. win_in_one B me i) \<or> (\<exists>j. best = Some (j, 9))" by auto
    from Cons.IH [OF inv this, of \<alpha> n p] False show ?thesis
      by simp
  next
    case True
    obtain s n' p' where m: "minimax (B[i := Some me]) me 1 False \<alpha> pos_inf n p = (s, n', p')"
      by (cases "minimax (B[i := Some me]) me 1 False \<alpha> pos_inf n p") auto
    note step = root_search_step [OF True m, of "is" best]
    show ?thesis
    proof (cases "win_in_one B me i")
      case w: True
      from winning_child [OF w, of \<alpha> pos_inf n p] m have s: "s = 9" by simp
      show ?thesis
      proof (cases "case best of None \<Rightarrow> True | Some (j, b) \<Rightarrow> s > b")
        case True
        have "\<exists>i' n'' p''. root_search B me is (Some (i, s)) (max \<alpha> s) n' p' = (Some (i', 9), n'', p'')
            \<and> win_in_one B me i'"
          by (rule Cons.IH) (use s w in auto)
        with True step show ?thesis by simp
      next
        case False
        then obtain j b where b: "best = Some (j, b)" "b \<ge> 9"
          using s by (auto split: option.splits)
        with inv have "b = 9" by auto
        with b have "(\<exists>i \<in> set is. win_in_one B me i) \<or> (\<exists>j. best = Some (j, 9))" by auto
        from Cons.IH [OF inv this, of \<alpha> n' p'] False step show ?thesis by simp
      qed
    next
      case nw: False
      with True have "\<not> wins (B[i := Some me]) me" by (simp add: win_in_one_def)
      from other_child [OF len True this, of \<alpha> pos_inf n p] m have s: "s \<le> 8" by simp
      show ?thesis
      proof (cases "case best of None \<Rightarrow> True | Some (j, b) \<Rightarrow> s > b")
        case True
        then have "\<not> (\<exists>j. best = Some (j, 9))" using s by (auto split: option.splits)
        with ex nw have ex': "\<exists>i \<in> set is. win_in_one B me i" by auto
        have "\<exists>i' n'' p''. root_search B me is (Some (i, s)) (max \<alpha> s) n' p' = (Some (i', 9), n'', p'')
            \<and> win_in_one B me i'"
          by (rule Cons.IH) (use s ex' in auto)
        with True step show ?thesis by simp
      next
        case False
        from ex nw have "(\<exists>i \<in> set is. win_in_one B me i) \<or> (\<exists>j. best = Some (j, 9))" by auto
        from Cons.IH [OF inv this, of \<alpha> n' p'] False step show ?thesis by simp
      qed
    qed
  qed
qed

lemma root_search_Some:
  "(\<exists>i \<in> set is. legal B i) \<or> best \<noteq> None
     \<Longrightarrow> \<exists>i s n' p'. root_search B me is best \<alpha> n p = (Some (i, s), n', p')"
proof (induction "is" arbitrary: best \<alpha> n p)
  case Nil
  then show ?case by auto
next
  case (Cons i "is")
  show ?case
  proof (cases "legal B i")
    case False
    with Cons.prems have "(\<exists>i \<in> set is. legal B i) \<or> best \<noteq> None" by auto
    from Cons.IH [OF this, of \<alpha> n p] False show ?thesis by simp
  next
    case True
    obtain s n' p' where m: "minimax (B[i := Some me]) me 1 False \<alpha> pos_inf n p = (s, n', p')"
      by (cases "minimax (B[i := Some me]) me 1 False \<alpha> pos_inf n p") auto
    note step = root_search_step [OF True m, of "is" best]
    show ?thesis
    proof (cases "case best of None \<Rightarrow> True | Some (j, b) \<Rightarrow> s > b")
      case True
      have "\<exists>i' s' n'' p''. root_search B me is (Some (i, s)) (max \<alpha> s) n' p' = (Some (i', s'), n'', p'')"
        by (rule Cons.IH) simp
      with True step show ?thesis by simp
    next
      case False
      then have "best \<noteq> None" by (auto split: option.splits)
      then have "(\<exists>i \<in> set is. legal B i) \<or> best \<noteq> None" by simp
      from Cons.IH [OF this, of \<alpha> n' p'] False step show ?thesis by simp
    qed
  qed
qed

lemma not_full_legal: "length B = 9 \<Longrightarrow> \<not> full B \<Longrightarrow> \<exists>i \<in> set [0..<9]. legal B i"
  by (auto simp: full_def legal_def in_set_conv_nth)

lemma hard_decision_Some:
  assumes "length B = 9" and "\<not> full B"
  shows "\<exists>d. hard_decision B me = Some d"
proof -
  from not_full_legal [OF assms] have "(\<exists>i \<in> set [0..<9]. legal B i) \<or> (None :: (nat \<times> int) option) \<noteq> None"
    by simp
  from root_search_Some [OF this, of me neg_inf 1 0] show ?thesis
    by (auto simp: hard_decision_def)
qed

lemma random_decision_Some:
  assumes "length B = 9" and "\<not> full B"
  shows "\<exists>d. random_decision B rnd = Some d"
proof -
  from not_full_legal [OF assms] have "filter (legal B) [0..<9] \<noteq> []"
    by (simp add: filter_empty_conv)
  then show ?thesis by (simp add: random_decision_def Let_def)
qed

text \<open>
  C3. On every non-terminal board of 9 cells where the engine's mark can complete a line in
  one move, the Hard move computation returns a decision whose move is such a winning cell
  (an Empty cell that completes a line), with score 9. Its instance below is the board
  \<open>[X,X,null,O,O,null,null,null,null]\<close> with player X, where the move is cell 2.
\<close>

theorem hard_takes_win:
  assumes "length B = 9" and "\<not> terminal B" and "\<exists>i. win_in_one B me i"
  shows "\<exists>d. computeMove B me Hard rnd = Inr d \<and> win_in_one B me (move d) \<and> score d = 9"
proof -
  from assms(3) obtain i where i: "win_in_one B me i" ..
  then have "i < 9" using assms(1) by (simp add: win_in_one_def legal_def)
  with i have ex: "(\<exists>i \<in> set [0..<9]. win_in_one B me i) \<or> (\<exists>j. (None :: (nat \<times> int) option) = Some (j, 9))"
    by auto
  have "\<exists>i n' p'. root_search B me [0..<9] None neg_inf 1 0 = (Some (i, 9), n', p') \<and> win_in_one B me i"
    by (rule root_search_win [OF assms(1) _ ex]) simp
  then obtain k n' p' where r: "root_search B me [0..<9] None neg_inf 1 0 = (Some (k, 9), n', p')"
    and k: "win_in_one B me k" by blast
  from assms(2) have "\<not> full B" by (simp add: terminal_def)
  with r k assms(1) show ?thesis
    by (simp add: computeMove_def hard_decision_def)
qed

theorem hard_takes_win_witness:
  "\<exists>d. computeMove
          [Some PlayerX, Some PlayerX, None, Some PlayerO, Some PlayerO, None, None, None, None]
          PlayerX Hard \<lparr>discard = False, pick = 0\<rparr> = Inr d
       \<and> move d = 2 \<and> score d = 9"
proof -
  let ?B = "[Some PlayerX, Some PlayerX, None, Some PlayerO, Some PlayerO, None, None, None, None]"
  have len: "length ?B = 9" by simp
  have nt: "\<not> terminal ?B"
    by (simp add: terminal_def wins_def engine_lines_def full_def)
  have w: "win_in_one ?B PlayerX 2"
    by (simp add: win_in_one_def legal_def wins_def engine_lines_def)
  then have ex: "\<exists>i. win_in_one ?B PlayerX i" ..
  have only: "k = 2" if "win_in_one ?B PlayerX k" for k
  proof -
    from that have "k < 9" by (simp add: win_in_one_def legal_def)
    then consider "k = 0" | "k = 1" | "k = 2" | "k = 3" | "k = 4" | "k = 5" | "k = 6" | "k = 7"
      | "k = 8"
      by linarith
    then show ?thesis
      using that by cases (simp_all add: win_in_one_def legal_def wins_def engine_lines_def)
  qed
  from hard_takes_win [OF len nt ex, of "\<lparr>discard = False, pick = 0\<rparr>"] only
  show ?thesis by blast
qed

text \<open>
  C4. On a board of 9 cells the move computation fails with \<open>NoLegalMoves\<close> exactly when
  no cell is Empty: it then returns the failure and no move, at every difficulty; and when
  some cell is Empty it returns a decision.
\<close>

theorem computeMove_NoLegalMoves:
  assumes "length B = 9"
  shows "(computeMove B me diff rnd = Inl NoLegalMoves \<longleftrightarrow> None \<notin> set B)
       \<and> (None \<notin> set B \<longrightarrow> (\<forall>d. computeMove B me diff rnd \<noteq> Inr d))
       \<and> (None \<in> set B \<longrightarrow> (\<exists>d. computeMove B me diff rnd = Inr d))"
proof (cases "full B")
  case True
  with assms show ?thesis by (simp add: computeMove_def full_def)
next
  case False
  from hard_decision_Some [OF assms False, of me]
  obtain h where h: "hard_decision B me = Some h" ..
  from random_decision_Some [OF assms False, of rnd]
  obtain r where r: "random_decision B rnd = Some r" ..
  from False assms h r have "\<exists>d. computeMove B me diff rnd = Inr d"
    by (cases diff) (simp_all add: computeMove_def)
  with False show ?thesis by (auto simp: full_def)
qed

theorem computeMove_NoLegalMoves_witness:
  "computeMove
     [Some PlayerX, Some PlayerO, Some PlayerX,
      Some PlayerX, Some PlayerO, Some PlayerO,
      Some PlayerO, Some PlayerX, Some PlayerX] PlayerO Hard \<lparr>discard = False, pick = 0\<rparr>
     = Inl NoLegalMoves
   \<and> (\<exists>d. computeMove
     [Some PlayerX, Some PlayerO, Some PlayerX,
      Some PlayerX, None, Some PlayerO,
      Some PlayerO, Some PlayerX, Some PlayerX] PlayerO Hard \<lparr>discard = False, pick = 0\<rparr>
     = Inr d)"
  using
    computeMove_NoLegalMoves [of
      "[Some PlayerX, Some PlayerO, Some PlayerX,
        Some PlayerX, Some PlayerO, Some PlayerO,
        Some PlayerO, Some PlayerX, Some PlayerX]" PlayerO Hard "\<lparr>discard = False, pick = 0\<rparr>"]
    computeMove_NoLegalMoves [of
      "[Some PlayerX, Some PlayerO, Some PlayerX,
        Some PlayerX, None, Some PlayerO,
        Some PlayerO, Some PlayerX, Some PlayerX]" PlayerO Hard "\<lparr>discard = False, pick = 0\<rparr>"]
  by simp

text \<open>
  C6. A terminal position at \<open>d\<close> plies scores \<open>10 - d\<close> when the mover has won, \<open>d - 10\<close>
  when the opponent has won and 0 for a draw, that is +10, -10 and 0 before the depth
  adjustment; of two wins the one at fewer plies scores strictly higher, and of two losses
  the one at more plies scores strictly higher.
\<close>

theorem terminal_score_depth:
  "(wins B me \<longrightarrow> terminal_score B me d = Some (10 - int d))
 \<and> (\<not> wins B me \<and> wins B (opponent me) \<longrightarrow> terminal_score B me d = Some (int d - 10))
 \<and> (\<not> wins B me \<and> \<not> wins B (opponent me) \<and> full B \<longrightarrow> terminal_score B me d = Some 0)
 \<and> (wins B me \<longrightarrow> terminal_score B me 0 = Some 10)
 \<and> (\<not> wins B me \<and> wins B (opponent me) \<longrightarrow> terminal_score B me 0 = Some (- 10))
 \<and> (wins B me \<and> wins B' me \<and> d < d' \<longrightarrow>
      (\<exists>s s'. terminal_score B me d = Some s \<and> terminal_score B' me d' = Some s' \<and> s' < s))
 \<and> (\<not> wins B me \<and> wins B (opponent me) \<and> \<not> wins B' me \<and> wins B' (opponent me) \<and> d < d' \<longrightarrow>
      (\<exists>s s'. terminal_score B me d = Some s \<and> terminal_score B' me d' = Some s' \<and> s < s'))"
  by (simp add: terminal_score_def)

theorem terminal_score_depth_witness:
  "terminal_score
     [Some PlayerX, Some PlayerX, Some PlayerX, Some PlayerO, Some PlayerO, None, None, None, None]
     PlayerX 1 = Some 9
   \<and> terminal_score
     [Some PlayerX, Some PlayerX, Some PlayerX, Some PlayerO, Some PlayerO, None,
      Some PlayerO, Some PlayerX, None] PlayerX 3 = Some 7
   \<and> terminal_score
     [Some PlayerX, Some PlayerX, Some PlayerX, Some PlayerO, Some PlayerO, None, None, None, None]
     PlayerO 2 = Some (- 8)
   \<and> terminal_score
     [Some PlayerX, Some PlayerX, Some PlayerX, Some PlayerO, Some PlayerO, None,
      Some PlayerO, Some PlayerX, None] PlayerO 4 = Some (- 6)
   \<and> terminal_score
     [Some PlayerX, Some PlayerO, Some PlayerX, Some PlayerX, Some PlayerO, Some PlayerO,
      Some PlayerO, Some PlayerX, Some PlayerX] PlayerX 9 = Some 0"
  using
    terminal_score_depth [of
      "[Some PlayerX, Some PlayerX, Some PlayerX, Some PlayerO, Some PlayerO, None, None, None, None]"
      PlayerX 1]
    terminal_score_depth [of
      "[Some PlayerX, Some PlayerX, Some PlayerX, Some PlayerO, Some PlayerO, None,
        Some PlayerO, Some PlayerX, None]" PlayerX 3]
    terminal_score_depth [of
      "[Some PlayerX, Some PlayerX, Some PlayerX, Some PlayerO, Some PlayerO, None, None, None, None]"
      PlayerO 2]
    terminal_score_depth [of
      "[Some PlayerX, Some PlayerX, Some PlayerX, Some PlayerO, Some PlayerO, None,
        Some PlayerO, Some PlayerX, None]" PlayerO 4]
    terminal_score_depth [of
      "[Some PlayerX, Some PlayerO, Some PlayerX, Some PlayerX, Some PlayerO, Some PlayerO,
        Some PlayerO, Some PlayerX, Some PlayerX]" PlayerX 9]
  by (simp add: wins_def engine_lines_def full_def opponent_def)

end
